theory Spec2Isabelle
  imports Main "HOL-Library.Log_Nat" "HOL-Library.Multiset"
begin

section \<open>The average calculator of \<^verbatim>\<open>src/example/buggy.py\<close>\<close>

text \<open>
  The script under study:
  \<^verbatim>\<open>
  def calculate_average(numbers):
      total = 0
      for num in numbers:
          total += num
      return total / len(numbers)

  def main():
      data = []
      result = calculate_average(data)
      print(f"Average: {result}")

  if __name__ == "__main__":
      main()
  \<close>
  The input is a list of Python numbers: unbounded integers and floats. The operators
  \<^verbatim>\<open>+=\<close> and \<^verbatim>\<open>/\<close> are the interpreter's, so their meaning on these two
  types is written out first: integer addition is exact, every float result is the exact
  result rounded to the nearest double (ties to even), and an integer that takes part in
  a float operation is converted first, which fails when it is out of the float range.
\<close>

subsection \<open>Numbers and errors\<close>

datatype py_error = ZeroDivisionError | OverflowError

text \<open>
  A float is a finite double, given by its exact rational value, an infinity or a NaN.
  The sign of a zero is not kept: \<^verbatim>\<open>0.0 == -0.0\<close> holds in Python, and no
  operation of the script tells them apart other than printing.
\<close>

datatype pyfloat = Finite rat | PosInf | NegInf | NaN

datatype number = PyInt int | PyFloat pyfloat

subsection \<open>Rounding to double precision\<close>

text \<open>\<open>round_half_even n d\<close> is the integer nearest to \<open>n / d\<close> (for \<open>0 \<le> n\<close>,
  \<open>0 < d\<close>), the even one of the two when \<open>n / d\<close> lies halfway.\<close>

definition round_half_even :: "int \<Rightarrow> int \<Rightarrow> int" where
  "round_half_even n d =
     (let q = n div d; r = n mod d
      in if d < 2 * r \<or> (2 * r = d \<and> odd q) then q + 1 else q)"

text \<open>\<open>floor_log2 n d\<close> is the binary exponent of \<open>n / d\<close> (for \<open>0 < n\<close>, \<open>0 < d\<close>):
  the \<open>e\<close> with \<open>2\<^sup>e \<le> n / d < 2\<^sup>e\<^sup>+\<^sup>1\<close>.\<close>

definition floor_log2 :: "int \<Rightarrow> int \<Rightarrow> int" where
  "floor_log2 n d =
     (let e = bitlen n - bitlen d
      in if (if 0 \<le> e then d * 2 ^ nat e \<le> n else d \<le> n * 2 ^ nat (- e))
         then e else e - 1)"

text \<open>
  \<open>round_ratio p d\<close> is the double nearest to \<open>p / d\<close> (for \<open>0 < d\<close>): the nearest
  value with a 53-bit significand and an exponent no smaller than the subnormal one
  (\<open>2\<^sup>-\<^sup>1\<^sup>0\<^sup>7\<^sup>4\<close>). The exponent is not bounded above here, so a result of magnitude
  \<open>2\<^sup>1\<^sup>0\<^sup>2\<^sup>4\<close> or more stands for an overflow.
\<close>

definition round_ratio :: "int \<Rightarrow> int \<Rightarrow> rat" where
  "round_ratio p d =
     (if p = 0 then 0
      else let n = \<bar>p\<bar>;
               k = max (floor_log2 n d - 52) (- 1074);
               m = (if 0 \<le> k then round_half_even n (d * 2 ^ nat k)
                    else round_half_even (n * 2 ^ nat (- k)) d);
               v = (if 0 \<le> k then of_int (m * 2 ^ nat k)
                    else of_int m / of_int (2 ^ nat (- k)))
           in if p < 0 then - v else v)"

definition nearest_double :: "rat \<Rightarrow> rat" where
  "nearest_double x = (case quotient_of x of (p, d) \<Rightarrow> round_ratio p d)"

text \<open>Powers of two with an integer exponent, as rationals.\<close>

abbreviation pw :: "int \<Rightarrow> rat" where
  "pw k \<equiv> 2 powi k"

definition overflows :: "rat \<Rightarrow> bool" where
  "overflows r \<longleftrightarrow> 2 ^ 1024 \<le> \<bar>r\<bar>"

text \<open>A float operation that overflows yields an infinity and raises nothing.\<close>

definition round_double :: "rat \<Rightarrow> pyfloat" where
  "round_double x =
     (let r = nearest_double x
      in if overflows r then (if 0 < r then PosInf else NegInf) else Finite r)"

text \<open>Converting an integer operand to a float raises \<^verbatim>\<open>OverflowError\<close> instead.\<close>

definition int_to_double :: "int \<Rightarrow> py_error + rat" where
  "int_to_double i =
     (let r = round_ratio i 1
      in if overflows r then Inl OverflowError else Inr r)"

subsection \<open>The operators \<^verbatim>\<open>+\<close> and \<^verbatim>\<open>/\<close>\<close>

fun float_add :: "pyfloat \<Rightarrow> pyfloat \<Rightarrow> pyfloat" where
  "float_add NaN y = NaN"
| "float_add x NaN = NaN"
| "float_add PosInf NegInf = NaN"
| "float_add NegInf PosInf = NaN"
| "float_add PosInf y = PosInf"
| "float_add x PosInf = PosInf"
| "float_add NegInf y = NegInf"
| "float_add x NegInf = NegInf"
| "float_add (Finite a) (Finite b) = round_double (a + b)"

text \<open>Division of a float by a finite non-zero double \<open>b\<close>.\<close>

fun float_div :: "pyfloat \<Rightarrow> rat \<Rightarrow> pyfloat" where
  "float_div NaN b = NaN"
| "float_div PosInf b = (if 0 < b then PosInf else NegInf)"
| "float_div NegInf b = (if 0 < b then NegInf else PosInf)"
| "float_div (Finite a) b = round_double (a / b)"

text \<open>\<^verbatim>\<open>total + num\<close>, which is what \<^verbatim>\<open>total += num\<close> computes on numbers (they
  are immutable, so the statement rebinds \<^verbatim>\<open>total\<close>).\<close>

fun py_add :: "number \<Rightarrow> number \<Rightarrow> py_error + number" where
  "py_add (PyInt a) (PyInt b) = Inr (PyInt (a + b))"
| "py_add (PyInt a) (PyFloat y) =
     (case int_to_double a of
        Inl e \<Rightarrow> Inl e
      | Inr x \<Rightarrow> Inr (PyFloat (float_add (Finite x) y)))"
| "py_add (PyFloat x) (PyInt b) =
     (case int_to_double b of
        Inl e \<Rightarrow> Inl e
      | Inr y \<Rightarrow> Inr (PyFloat (float_add x (Finite y))))"
| "py_add (PyFloat x) (PyFloat y) = Inr (PyFloat (float_add x y))"

text \<open>
  \<^verbatim>\<open>total / n\<close> for a divisor \<open>n\<close> that is a non-negative integer (the divisor of
  the script is a \<^verbatim>\<open>len\<close>). Between integers the quotient is rounded once, from the exact
  rational; a zero divisor is checked first and a quotient out of the float range raises
  \<^verbatim>\<open>OverflowError\<close>. A float dividend has the divisor converted, then checked
  against zero.
\<close>

fun py_truediv :: "number \<Rightarrow> nat \<Rightarrow> py_error + number" where
  "py_truediv (PyInt a) n =
     (if n = 0 then Inl ZeroDivisionError
      else let r = round_ratio a (int n)
           in if overflows r then Inl OverflowError else Inr (PyFloat (Finite r)))"
| "py_truediv (PyFloat x) n =
     (case int_to_double (int n) of
        Inl e \<Rightarrow> Inl e
      | Inr b \<Rightarrow> if b = 0 then Inl ZeroDivisionError else Inr (PyFloat (float_div x b)))"

definition len :: "'a list \<Rightarrow> nat" where
  "len xs = length xs"

subsection \<open>\<^verbatim>\<open>calculate_average\<close>\<close>

text \<open>The \<^verbatim>\<open>for\<close> loop, from the current \<^verbatim>\<open>total\<close> over the elements still to
  come; an error raised by an addition leaves the loop and the function.\<close>

fun for_loop :: "number \<Rightarrow> number list \<Rightarrow> py_error + number" where
  "for_loop tot [] = Inr tot"
| "for_loop tot (num # rest) =
     (case py_add tot num of
        Inl e \<Rightarrow> Inl e
      | Inr tot' \<Rightarrow> for_loop tot' rest)"

definition calculate_average :: "number list \<Rightarrow> py_error + number" where
  "calculate_average numbers =
     (case for_loop (PyInt 0) numbers of
        Inl e \<Rightarrow> Inl e
      | Inr tot \<Rightarrow> py_truediv tot (len numbers))"

subsection \<open>The same function on a store of list objects\<close>

text \<open>
  The caller passes a reference to a list object, which the callee could mutate. Here
  the state of the interpreter is explicit: the list object at each address and the
  lines written to standard output so far. The loop is the list iterator's: it reads
  element \<open>i\<close> of the object while \<open>i\<close> is below the object's current length.
\<close>

record pystate =
  heap :: "nat \<Rightarrow> number list"
  stdout :: "string list"

function for_loop_st :: "nat \<Rightarrow> nat \<Rightarrow> number \<Rightarrow> pystate \<Rightarrow> (py_error + number) \<times> pystate" where
  "for_loop_st numbers i tot s =
     (if i < length (heap s numbers)
      then (case py_add tot (heap s numbers ! i) of
              Inl e \<Rightarrow> (Inl e, s)
            | Inr tot' \<Rightarrow> for_loop_st numbers (Suc i) tot' s)
      else (Inr tot, s))"
  by pat_completeness auto
termination
  by (relation "measure (\<lambda>(numbers, i, tot, s). length (heap s numbers) - i)") auto

declare for_loop_st.simps [simp del]

definition calculate_average_st :: "nat \<Rightarrow> pystate \<Rightarrow> (py_error + number) \<times> pystate" where
  "calculate_average_st numbers s =
     (case for_loop_st numbers 0 (PyInt 0) s of
        (Inl e, s') \<Rightarrow> (Inl e, s')
      | (Inr tot, s') \<Rightarrow> (py_truediv tot (len (heap s' numbers)), s'))"

subsection \<open>\<^verbatim>\<open>main\<close> and the script\<close>

text \<open>
  \<open>main_with str data out\<close> is the body of \<^verbatim>\<open>main\<close> once \<^verbatim>\<open>data\<close> is bound:
  the call and the \<^verbatim>\<open>print\<close>. \<open>out\<close> is the list of lines on standard output
  before, the second component of the result the list after; \<^verbatim>\<open>print\<close> appends one
  line. \<open>str\<close> is the interpreter's default rendering of a number, which the f-string
  applies to \<^verbatim>\<open>result\<close>. There is no \<^verbatim>\<open>try\<close> in \<^verbatim>\<open>main\<close>: an error of the
  call leaves \<^verbatim>\<open>main\<close> before the \<^verbatim>\<open>print\<close>.
\<close>

definition main_with :: "(number \<Rightarrow> string) \<Rightarrow> number list \<Rightarrow> string list \<Rightarrow> (py_error + unit) \<times> string list" where
  "main_with str data out =
     (case calculate_average data of
        Inl e \<Rightarrow> (Inl e, out)
      | Inr result \<Rightarrow> (Inr (), out @ [''Average: '' @ str result]))"

definition main :: "(number \<Rightarrow> string) \<Rightarrow> string list \<Rightarrow> (py_error + unit) \<times> string list" where
  "main str out = main_with str [] out"

text \<open>
  Running the file as a script calls \<^verbatim>\<open>main()\<close> with nothing written yet. An
  exception that reaches the top level ends the process with status 1 after a traceback
  on standard error; otherwise the status is 0.
\<close>

record outcome =
  out_lines :: "string list"
  uncaught :: "py_error option"
  exit_status :: nat

definition run_script :: "(number \<Rightarrow> string) \<Rightarrow> outcome" where
  "run_script str =
     (case main str [] of
        (Inl e, out) \<Rightarrow> \<lparr>out_lines = out, uncaught = Some e, exit_status = 1\<rparr>
      | (Inr u, out) \<Rightarrow> \<lparr>out_lines = out, uncaught = None, exit_status = 0\<rparr>)"

subsection \<open>The mean as the specification words it\<close>

text \<open>
  The specification describes the result as the sum of the elements, accumulated from
  zero over one forward pass, divided by the number of elements. \<open>sum_spec\<close> and
  \<open>average_spec\<close> follow these words, with the operators of the implementation's
  numeric types; an error of an addition or of the division is the result.
\<close>

definition sum_spec :: "number list \<Rightarrow> py_error + number" where
  "sum_spec S =
     foldl (\<lambda>acc x. case acc of Inl e \<Rightarrow> Inl e | Inr t \<Rightarrow> py_add t x) (Inr (PyInt 0)) S"

definition average_spec :: "number list \<Rightarrow> py_error + number" where
  "average_spec S =
     (case sum_spec S of
        Inl e \<Rightarrow> Inl e
      | Inr t \<Rightarrow> py_truediv t (len S))"

subsection \<open>Doubles, the nearest double and the exact mean\<close>

text \<open>
  The notions the properties are measured against, none of them used by the model of the
  code. \<open>doubles\<close> are the rationals with a significand of 53 bits and an exponent no
  smaller than the subnormal one; the exponent is not bounded above, the float range
  being the magnitudes below \<open>2\<^sup>1\<^sup>0\<^sup>2\<^sup>4\<close>. \<open>nearest_double_to q r\<close> says that \<open>r\<close> is such a
  value and that no other is nearer to \<open>q\<close>. \<open>exact_mean xs\<close> is the mean of the integers
  \<open>xs\<close> as a rational number.
\<close>

definition doubles :: "rat set" where
  "doubles = {of_int m * pw k | m k. \<bar>m\<bar> < 2 ^ 53 \<and> - 1074 \<le> k}"

definition nearest_double_to :: "rat \<Rightarrow> rat \<Rightarrow> bool" where
  "nearest_double_to q r \<longleftrightarrow> r \<in> doubles \<and> (\<forall>y\<in>doubles. \<bar>r - q\<bar> \<le> \<bar>y - q\<bar>)"

definition exact_mean :: "int list \<Rightarrow> rat" where
  "exact_mean xs = of_int (sum_list xs) / of_int (int (length xs))"

section \<open>Properties\<close>

subsection \<open>The rounding functions\<close>

text \<open>
  \<open>floor_log2\<close> is the binary exponent it is meant to be, and \<open>round_ratio\<close> stays
  within one unit in the last place of the quotient; so a quotient below \<open>2\<^sup>1\<^sup>0\<^sup>2\<^sup>3\<close>
  does not overflow, one of \<open>2\<^sup>1\<^sup>0\<^sup>2\<^sup>4\<close> or more does, and a positive integer is never
  converted to zero.
\<close>

lemma pw_less_imp: "pw a < pw b \<Longrightarrow> a < b"
proof (rule ccontr)
  assume "pw a < pw b" and "\<not> a < b"
  then have "pw b \<le> pw a" by (intro power_int_increasing) auto
  with \<open>pw a < pw b\<close> show False by simp
qed

lemma pw_neg: "e < 0 \<Longrightarrow> pw e = 1 / 2 ^ nat (- e)"
proof -
  assume "e < 0"
  then have "pw e = pw (- int (nat (- e)))" by simp
  also have "\<dots> = 1 / 2 ^ nat (- e)" by (simp only: power_int_minus_divide power_int_of_nat)
  finally show ?thesis .
qed

lemma test_iff:
  assumes "0 < n" "0 < d"
  shows "(if 0 \<le> e then d * 2 ^ nat e \<le> n else d \<le> n * 2 ^ nat (- e))
         \<longleftrightarrow> pw e \<le> of_int n / of_int d"
proof (cases "0 \<le> e")
  case True
  have "d * 2 ^ nat e \<le> n \<longleftrightarrow> (of_int (d * 2 ^ nat e) :: rat) \<le> of_int n"
    by (simp only: of_int_le_iff)
  also have "\<dots> \<longleftrightarrow> 2 ^ nat e \<le> (of_int n :: rat) / of_int d"
    using assms by (simp add: pos_le_divide_eq mult.commute)
  finally show ?thesis using True by (simp add: power_int_nonneg_exp)
next
  case False
  have "d \<le> n * 2 ^ nat (- e) \<longleftrightarrow> (of_int d :: rat) \<le> of_int (n * 2 ^ nat (- e))"
    by (simp only: of_int_le_iff)
  also have "\<dots> \<longleftrightarrow> 1 / 2 ^ nat (- e) \<le> (of_int n :: rat) / of_int d"
    using assms by (simp add: field_simps)
  finally show ?thesis using False by (simp add: pw_neg)
qed

lemma bitlen_rat_bounds:
  assumes "0 < n"
  shows "pw (bitlen n - 1) \<le> of_int n" "(of_int n :: rat) < pw (bitlen n)"
proof -
  have b1: "1 \<le> bitlen n" using assms bitlen_eq_zero_iff[of n] bitlen_nonneg[of n] by linarith
  have "(of_int (2 ^ nat (bitlen n - 1)) :: rat) \<le> of_int n"
    using bitlen_bounds[OF assms] by (simp only: of_int_le_iff)
  then show "pw (bitlen n - 1) \<le> of_int n" using b1 by (simp add: power_int_nonneg_exp)
  have "(of_int n :: rat) < of_int (2 ^ nat (bitlen n))"
    using bitlen_bounds[OF assms] by (simp only: of_int_less_iff)
  then show "(of_int n :: rat) < pw (bitlen n)" using b1 by (simp add: power_int_nonneg_exp)
qed

lemma floor_log2_bounds:
  assumes n: "0 < n" and d: "0 < d"
  shows "pw (floor_log2 n d) \<le> of_int n / of_int d"
    and "of_int n / of_int d < pw (floor_log2 n d + 1)"
proof -
  let ?x = "(of_int n :: rat) / of_int d"
  let ?e = "bitlen n - bitlen d"
  have dn: "(0::rat) < of_int d" "(0::rat) < of_int n" using n d by simp_all
  have lo: "pw (?e - 1) < ?x"
  proof -
    have "pw (?e - 1) * of_int d < pw (?e - 1) * pw (bitlen d)"
      using bitlen_rat_bounds(2)[OF d] by (simp)
    also have "\<dots> = pw (bitlen n - 1)" by (simp add: power_int_add[symmetric])
    also have "\<dots> \<le> of_int n" by (rule bitlen_rat_bounds(1)[OF n])
    finally show ?thesis using dn by (simp add: pos_less_divide_eq)
  qed
  have hi: "?x < pw (?e + 1)"
  proof -
    have "of_int n < pw (bitlen n)" by (rule bitlen_rat_bounds(2)[OF n])
    also have "\<dots> = pw (?e + 1) * pw (bitlen d - 1)" by (simp add: power_int_add[symmetric])
    also have "\<dots> \<le> pw (?e + 1) * of_int d"
      using bitlen_rat_bounds(1)[OF d] by simp
    finally show ?thesis using dn by (simp add: pos_divide_less_eq)
  qed
  have fl: "floor_log2 n d = (if pw ?e \<le> ?x then ?e else ?e - 1)"
    unfolding floor_log2_def Let_def test_iff[OF n d] ..
  show "pw (floor_log2 n d) \<le> ?x" using lo by (simp add: fl)
  show "?x < pw (floor_log2 n d + 1)" using hi by (auto simp add: fl)
qed

lemma floor_log2_unique:
  assumes n: "0 < n" and d: "0 < d"
    and lo: "pw e \<le> of_int n / of_int d" and hi: "of_int n / of_int d < pw (e + 1)"
  shows "floor_log2 n d = e"
proof -
  have "pw e < pw (floor_log2 n d + 1)"
    using lo floor_log2_bounds(2)[OF n d] by (rule le_less_trans)
  then have a: "e < floor_log2 n d + 1" by (rule pw_less_imp)
  have "pw (floor_log2 n d) < pw (e + 1)"
    using floor_log2_bounds(1)[OF n d] hi by (rule le_less_trans)
  then have "floor_log2 n d < e + 1" by (rule pw_less_imp)
  with a show ?thesis by linarith
qed

lemma rhe_bounds:
  assumes "0 < d"
  shows "n div d \<le> round_half_even n d" "round_half_even n d \<le> n div d + 1"
  by (simp_all add: round_half_even_def Let_def)

lemma round_ratio_neg: "round_ratio (- p) d = - round_ratio p d"
  by (simp add: round_ratio_def Let_def)

lemma round_ratio_pos:
  assumes p: "0 < p" and d: "0 < d"
  defines "k \<equiv> max (floor_log2 p d - 52) (- 1074)"
  shows "\<exists>m. round_ratio p d = of_int m * pw k
           \<and> \<lfloor>(of_int p / of_int d) / pw k\<rfloor> \<le> m
           \<and> m \<le> \<lfloor>(of_int p / of_int d) / pw k\<rfloor> + 1"
proof (cases "0 \<le> k")
  case True
  let ?d' = "d * 2 ^ nat k"
  let ?m = "round_half_even p ?d'"
  have d': "0 < ?d'" using d by simp
  have rr: "round_ratio p d = of_int (?m * 2 ^ nat k)"
    using p True by (simp add: round_ratio_def Let_def k_def)
  have pk: "pw k = 2 ^ nat k" using True by (simp add: power_int_nonneg_exp)
  have "(of_int p / of_int d) / pw k = (of_int p :: rat) / of_int ?d'"
    by (simp add: pk)
  then have fl: "\<lfloor>(of_int p / of_int d) / pw k\<rfloor> = p div ?d'"
    by (simp only: floor_divide_of_int_eq)
  show ?thesis
  proof (intro exI[of _ ?m] conjI)
    show "round_ratio p d = of_int ?m * pw k" using rr by (simp add: pk)
    show "\<lfloor>(of_int p / of_int d) / pw k\<rfloor> \<le> ?m"
      unfolding fl by (rule rhe_bounds(1)[OF d'])
    show "?m \<le> \<lfloor>(of_int p / of_int d) / pw k\<rfloor> + 1"
      unfolding fl by (rule rhe_bounds(2)[OF d'])
  qed
next
  case False
  let ?n' = "p * 2 ^ nat (- k)"
  let ?m = "round_half_even ?n' d"
  have rr: "round_ratio p d = of_int ?m / of_int (2 ^ nat (- k))"
    using p False by (simp add: round_ratio_def Let_def k_def)
  have pk: "pw k = 1 / 2 ^ nat (- k)" using False by (simp add: pw_neg)
  have "(of_int p / of_int d) / pw k = (of_int ?n' :: rat) / of_int d"
    by (simp add: pk)
  then have fl: "\<lfloor>(of_int p / of_int d) / pw k\<rfloor> = ?n' div d"
    by (simp only: floor_divide_of_int_eq)
  show ?thesis
  proof (intro exI[of _ ?m] conjI)
    show "round_ratio p d = of_int ?m * pw k" using rr by (simp add: pk)
    show "\<lfloor>(of_int p / of_int d) / pw k\<rfloor> \<le> ?m"
      unfolding fl by (rule rhe_bounds(1)[OF d])
    show "?m \<le> \<lfloor>(of_int p / of_int d) / pw k\<rfloor> + 1"
      unfolding fl by (rule rhe_bounds(2)[OF d])
  qed
qed

lemma round_ratio_upper:
  assumes p: "0 < p" and d: "0 < d"
  shows "round_ratio p d \<le> of_int p / of_int d + pw (max (floor_log2 p d - 52) (- 1074))"
proof -
  let ?k = "max (floor_log2 p d - 52) (- 1074)"
  let ?x = "(of_int p :: rat) / of_int d"
  obtain m where rr: "round_ratio p d = of_int m * pw ?k" and hi: "m \<le> \<lfloor>?x / pw ?k\<rfloor> + 1"
    using round_ratio_pos[OF p d] by blast
  have "(of_int m :: rat) \<le> of_int (\<lfloor>?x / pw ?k\<rfloor> + 1)" using hi by (simp only: of_int_le_iff)
  also have "\<dots> \<le> ?x / pw ?k + 1" by simp
  finally have "of_int m * pw ?k \<le> (?x / pw ?k + 1) * pw ?k"
    by (intro mult_right_mono) simp_all
  also have "\<dots> = ?x + pw ?k" by (simp add: field_simps)
  finally show ?thesis using rr by simp
qed

lemma round_ratio_lower:
  assumes p: "0 < p" and d: "0 < d" and e: "- 1074 \<le> floor_log2 p d"
  shows "pw (floor_log2 p d) \<le> round_ratio p d"
proof -
  let ?e = "floor_log2 p d"
  let ?k = "max (?e - 52) (- 1074)"
  let ?x = "(of_int p :: rat) / of_int d"
  obtain m where rr: "round_ratio p d = of_int m * pw ?k" and lo: "\<lfloor>?x / pw ?k\<rfloor> \<le> m"
    using round_ratio_pos[OF p d] by blast
  have ke: "?k \<le> ?e" using e by simp
  have "pw (?e - ?k) = pw ?e / pw ?k" by (simp add: power_int_diff)
  also have "\<dots> \<le> ?x / pw ?k"
    using floor_log2_bounds(1)[OF p d] by (intro divide_right_mono) simp_all
  finally have "(of_int (2 ^ nat (?e - ?k)) :: rat) \<le> ?x / pw ?k"
    using ke by (simp add: power_int_nonneg_exp)
  then have "2 ^ nat (?e - ?k) \<le> \<lfloor>?x / pw ?k\<rfloor>" by (simp only: le_floor_iff)
  with lo have "2 ^ nat (?e - ?k) \<le> m" by linarith
  then have "(of_int (2 ^ nat (?e - ?k)) :: rat) \<le> of_int m" by (simp only: of_int_le_iff)
  then have "pw (?e - ?k) \<le> of_int m" using ke by (simp add: power_int_nonneg_exp)
  then have "pw (?e - ?k) * pw ?k \<le> of_int m * pw ?k"
    by (intro mult_right_mono) simp_all
  moreover have "pw (?e - ?k) * pw ?k = pw ?e" by (simp add: power_int_add[symmetric])
  ultimately show ?thesis using rr by simp
qed

lemma round_ratio_nonneg:
  assumes p: "0 < p" and d: "0 < d"
  shows "0 \<le> round_ratio p d"
proof -
  let ?k = "max (floor_log2 p d - 52) (- 1074)"
  let ?x = "(of_int p :: rat) / of_int d"
  obtain m where rr: "round_ratio p d = of_int m * pw ?k" and lo: "\<lfloor>?x / pw ?k\<rfloor> \<le> m"
    using round_ratio_pos[OF p d] by blast
  have "0 \<le> ?x / pw ?k" using p d by simp
  then have "0 \<le> \<lfloor>?x / pw ?k\<rfloor>" by simp
  with lo have "0 \<le> m" by linarith
  then show ?thesis using rr by simp
qed

lemma round_ratio_no_overflow_pos:
  assumes p: "0 < p" and d: "0 < d" and b: "p < d * 2 ^ 1023"
  shows "\<not> overflows (round_ratio p d)"
proof -
  let ?e = "floor_log2 p d"
  let ?k = "max (?e - 52) (- 1074)"
  let ?x = "(of_int p :: rat) / of_int d"
  have "(of_int p :: rat) < of_int (d * 2 ^ 1023)" using b by (simp only: of_int_less_iff)
  then have x: "?x < pw 1023" using d by (simp add: pos_divide_less_eq mult.commute)
  have "pw ?e < pw 1023" using floor_log2_bounds(1)[OF p d] x by (rule le_less_trans)
  then have "?e < 1023" by (rule pw_less_imp)
  then have "?k \<le> 970" by simp
  then have k: "pw ?k \<le> pw 970" by (intro power_int_increasing) simp_all
  have "round_ratio p d \<le> ?x + pw ?k" by (rule round_ratio_upper[OF p d])
  also have "\<dots> < pw 1023 + pw 970" using x k by (rule add_less_le_mono)
  also have "\<dots> \<le> 2 ^ 1024" by simp
  finally have "round_ratio p d < 2 ^ 1024" .
  with round_ratio_nonneg[OF p d] show ?thesis by (simp add: overflows_def)
qed

lemma round_ratio_no_overflow:
  assumes d: "0 < d" and b: "\<bar>p\<bar> < d * 2 ^ 1023"
  shows "\<not> overflows (round_ratio p d)"
proof -
  consider "p = 0" | "0 < p" | "p < 0" by linarith
  then show ?thesis
  proof cases
    case 1
    then show ?thesis by (simp add: round_ratio_def overflows_def)
  next
    case 2
    with b have "p < d * 2 ^ 1023" by simp
    then show ?thesis using 2 d by (intro round_ratio_no_overflow_pos)
  next
    case 3
    with b have "- p < d * 2 ^ 1023" "0 < - p" by simp_all
    then have "\<not> overflows (round_ratio (- p) d)" using d by (intro round_ratio_no_overflow_pos)
    then show ?thesis by (simp add: round_ratio_neg overflows_def)
  qed
qed

lemma round_ratio_overflow_pos:
  assumes p: "0 < p" and d: "0 < d" and b: "d * 2 ^ 1024 \<le> p"
  shows "overflows (round_ratio p d)"
proof -
  let ?e = "floor_log2 p d"
  let ?x = "(of_int p :: rat) / of_int d"
  have "(of_int (d * 2 ^ 1024) :: rat) \<le> of_int p" using b by (simp only: of_int_le_iff)
  then have "pw 1024 \<le> ?x" using d by (simp add: pos_le_divide_eq mult.commute)
  then have "pw 1024 < pw (?e + 1)" using floor_log2_bounds(2)[OF p d] by (rule le_less_trans)
  then have e: "1024 < ?e + 1" by (rule pw_less_imp)
  then have "pw 1024 \<le> pw ?e" by (intro power_int_increasing) simp_all
  also have "\<dots> \<le> round_ratio p d" using e by (intro round_ratio_lower[OF p d]) simp
  finally show ?thesis by (simp add: overflows_def)
qed

lemma round_ratio_int_pos:
  assumes n: "0 < n"
  shows "0 < round_ratio n 1"
proof -
  let ?e = "floor_log2 n 1"
  have "pw 0 \<le> of_int n / of_int 1" using n by simp
  then have "pw 0 < pw (?e + 1)"
    using floor_log2_bounds(2)[OF n, of 1] by (rule le_less_trans) simp
  then have e: "0 < ?e + 1" by (rule pw_less_imp)
  have "0 < pw ?e" by simp
  also have "\<dots> \<le> round_ratio n 1" using e by (intro round_ratio_lower[OF n]) simp_all
  finally show ?thesis .
qed

subsection \<open>The empty input\<close>

text \<open>
  Claim C2. On the empty sequence the loop ends with the seed, the division by the
  length raises \<^verbatim>\<open>ZeroDivisionError\<close>, and so does \<open>calculate_average\<close>: no value
  (neither \<open>0\<close> nor a NaN nor any other) is returned.
\<close>

theorem calculate_average_empty_raises:
  "for_loop (PyInt 0) [] = Inr (PyInt 0)
   \<and> py_truediv (PyInt 0) (len []) = Inl ZeroDivisionError
   \<and> calculate_average [] = Inl ZeroDivisionError
   \<and> (\<forall>v. calculate_average [] \<noteq> Inr v)"
  by (simp add: calculate_average_def len_def)

text \<open>
  Claim C3. Run as a script, the program ends in the division error of the empty input:
  \<^verbatim>\<open>main\<close> raises it, nothing catches it, and the process exits with a non-zero
  status.
\<close>

theorem script_surfaces_zero_division:
  "fst (main str []) = Inl ZeroDivisionError
   \<and> uncaught (run_script str) = Some ZeroDivisionError
   \<and> exit_status (run_script str) = 1
   \<and> exit_status (run_script str) \<noteq> 0"
  by (simp add: run_script_def main_def main_with_def calculate_average_def len_def)

text \<open>
  Claim C10. On that path nothing is written: \<^verbatim>\<open>main\<close> leaves standard output as it
  found it, and the script's output has no line.
\<close>

theorem defect_path_prints_nothing:
  "snd (main str out) = out \<and> out_lines (run_script str) = []"
  by (simp add: run_script_def main_def main_with_def calculate_average_def len_def)

subsection \<open>No effect on the store\<close>

lemma for_loop_st_frame: "snd (for_loop_st numbers i tot s) = s"
proof (induction numbers i tot s rule: for_loop_st.induct)
  case (1 numbers i tot s)
  show ?case
  proof (cases "i < length (heap s numbers)")
    case True
    show ?thesis
    proof (cases "py_add tot (heap s numbers ! i)")
      case (Inl e)
      with True show ?thesis by (subst for_loop_st.simps) simp
    next
      case (Inr t)
      with True "1.IH"[OF True Inr] show ?thesis by (subst for_loop_st.simps) simp
    qed
  next
    case False
    then show ?thesis by (subst for_loop_st.simps) simp
  qed
qed

lemma for_loop_st_result:
  "fst (for_loop_st numbers i tot s) = for_loop tot (drop i (heap s numbers))"
proof (induction numbers i tot s rule: for_loop_st.induct)
  case (1 numbers i tot s)
  show ?case
  proof (cases "i < length (heap s numbers)")
    case True
    then have d: "drop i (heap s numbers) = heap s numbers ! i # drop (Suc i) (heap s numbers)"
      by (simp add: Cons_nth_drop_Suc)
    show ?thesis
    proof (cases "py_add tot (heap s numbers ! i)")
      case (Inl e)
      with True d show ?thesis by (subst for_loop_st.simps) simp
    next
      case (Inr t)
      with True d "1.IH"[OF True Inr] show ?thesis by (subst for_loop_st.simps) simp
    qed
  next
    case False
    then show ?thesis by (subst for_loop_st.simps) simp
  qed
qed

lemma for_loop_st_eq: "for_loop_st numbers 0 tot s = (for_loop tot (heap s numbers), s)"
  using for_loop_st_frame[of numbers 0 tot s] for_loop_st_result[of numbers 0 tot s]
  by (simp add: prod_eq_iff)

text \<open>
  Claim C8. A call of \<open>calculate_average\<close> on the list object at any address leaves the
  whole state as it was: every list object (the argument included) holds the same
  elements after the call as before, and nothing is written to standard output. The
  result is the one \<open>calculate_average\<close> computes from the elements.
\<close>

theorem calculate_average_pure:
  "calculate_average_st numbers s = (calculate_average (heap s numbers), s)
   \<and> heap (snd (calculate_average_st numbers s)) = heap s
   \<and> stdout (snd (calculate_average_st numbers s)) = stdout s"
  by (simp add: calculate_average_st_def calculate_average_def for_loop_st_eq split: sum.split)

subsection \<open>Roundings at particular inputs\<close>

lemma round_ratio_0: "round_ratio 0 d = 0"
  by (simp add: round_ratio_def)

lemma round_ratio_3_2: "round_ratio 3 2 = 3 / 2"
proof -
  have "floor_log2 3 2 = 0" by (rule floor_log2_unique) simp_all
  then show ?thesis by (simp add: round_ratio_def round_half_even_def Let_def)
qed

lemma round_ratio_12_3: "round_ratio 12 3 = 4"
proof -
  have "floor_log2 12 3 = 2" by (rule floor_log2_unique) simp_all
  then show ?thesis by (simp add: round_ratio_def round_half_even_def Let_def)
qed

lemma round_ratio_3_1: "round_ratio 3 1 = 3"
proof -
  have "floor_log2 3 1 = 1" by (rule floor_log2_unique) simp_all
  then show ?thesis by (simp add: round_ratio_def round_half_even_def Let_def)
qed

lemma round_ratio_1_1: "round_ratio 1 1 = 1"
proof -
  have "floor_log2 1 1 = 0" by (rule floor_log2_unique) simp_all
  then show ?thesis by (simp add: round_ratio_def round_half_even_def Let_def)
qed

lemma round_ratio_1_3: "round_ratio 1 3 = 6004799503160661 / 18014398509481984"
proof -
  have "floor_log2 1 3 = - 2" by (rule floor_log2_unique) simp_all
  then show ?thesis by (simp add: round_ratio_def round_half_even_def Let_def)
qed

lemma round_ratio_2p53: "round_ratio 9007199254740992 1 = 9007199254740992"
proof -
  have "floor_log2 9007199254740992 1 = 53" by (rule floor_log2_unique) simp_all
  then show ?thesis by (simp add: round_ratio_def round_half_even_def Let_def)
qed

lemma round_ratio_2p53_1: "round_ratio 9007199254740993 1 = 9007199254740992"
proof -
  have "floor_log2 9007199254740993 1 = 53" by (rule floor_log2_unique) simp_all
  then show ?thesis by (simp add: round_ratio_def round_half_even_def Let_def)
qed

lemma quotient_of_ratio:
  assumes "0 < d" "coprime n d"
  shows "quotient_of (of_int n / of_int d) = (n, d)"
proof -
  have "gcd n d = 1" using assms(2) by (simp add: coprime_iff_gcd_eq_1)
  then show ?thesis
    using assms(1) by (simp add: Fract_of_int_quotient[symmetric] quotient_of_Fract Rat.normalize_def)
qed

lemma quotient_of_third: "quotient_of (1 / 3) = (1, 3)"
  using quotient_of_ratio[of 3 1] by simp

lemma nearest_double_cases:
  "nearest_double 0 = 0"
  "nearest_double 1 = 1"
  "nearest_double 9007199254740992 = 9007199254740992"
  "nearest_double 9007199254740993 = 9007199254740992"
  "nearest_double (1 / 3) = 6004799503160661 / 18014398509481984"
  by (simp_all add: nearest_double_def quotient_of_third round_ratio_1_1 round_ratio_2p53
      round_ratio_2p53_1 round_ratio_1_3 round_ratio_0)

subsection \<open>The errors of the operators\<close>

text \<open>An addition or a division by a positive count raises nothing but
  \<^verbatim>\<open>OverflowError\<close>, and a positive count is never converted to the float zero.\<close>

lemma int_to_double_zero: "int_to_double 0 = Inr 0"
  by (simp add: int_to_double_def round_ratio_0 overflows_def)

lemma int_to_double_error: "int_to_double i = Inl e \<Longrightarrow> e = OverflowError"
  by (simp add: int_to_double_def Let_def split: if_splits)

lemma int_to_double_pos: "0 < n \<Longrightarrow> int_to_double n \<noteq> Inr 0"
  using round_ratio_int_pos[of n] by (auto simp: int_to_double_def Let_def)

lemma int_to_double_small:
  assumes "\<bar>n\<bar> < 2 ^ 1023"
  shows "int_to_double n = Inr (round_ratio n 1)"
proof -
  have "\<not> overflows (round_ratio n 1)"
    using assms by (intro round_ratio_no_overflow) simp_all
  then show ?thesis by (simp add: int_to_double_def)
qed

lemma py_add_error: "py_add a b = Inl e \<Longrightarrow> e = OverflowError"
  by (cases a; cases b) (auto split: sum.splits dest: int_to_double_error)

lemma for_loop_error: "for_loop tot xs = Inl e \<Longrightarrow> e = OverflowError"
  by (induction xs arbitrary: tot) (auto split: sum.splits dest: py_add_error)

lemma py_truediv_error:
  assumes "0 < n" "py_truediv t n = Inl e"
  shows "e = OverflowError"
proof (cases t)
  case (PyInt a)
  with assms show ?thesis by (simp add: Let_def split: if_splits)
next
  case (PyFloat x)
  with assms int_to_double_pos[of "int n"] show ?thesis
    by (auto split: sum.splits if_splits dest: int_to_double_error)
qed

lemma calculate_average_error:
  assumes "S \<noteq> []" "calculate_average S = Inl e"
  shows "e = OverflowError"
proof (cases "for_loop (PyInt 0) S")
  case (Inl e')
  with assms(2) for_loop_error[OF Inl] show ?thesis by (simp add: calculate_average_def)
next
  case (Inr t)
  with assms have "py_truediv t (length S) = Inl e" by (simp add: calculate_average_def len_def)
  moreover have "0 < length S" using assms(1) by simp
  ultimately show ?thesis by (rule py_truediv_error[rotated])
qed

subsection \<open>Integer inputs\<close>

text \<open>On integers the loop computes the exact sum, so the result is the exact mean
  rounded once.\<close>

lemma for_loop_ints: "for_loop (PyInt a) (map PyInt xs) = Inr (PyInt (a + sum_list xs))"
  by (induction xs arbitrary: a) (simp_all add: add.assoc)

lemma calculate_average_ints:
  "calculate_average (map PyInt xs) = py_truediv (PyInt (sum_list xs)) (length xs)"
  by (simp add: calculate_average_def for_loop_ints len_def)

lemma calculate_average_ints_small:
  assumes "xs \<noteq> []" "\<bar>sum_list xs\<bar> < 2 ^ 1023 * int (length xs)"
  shows "calculate_average (map PyInt xs)
         = Inr (PyFloat (Finite (round_ratio (sum_list xs) (int (length xs)))))"
proof -
  have "\<not> overflows (round_ratio (sum_list xs) (int (length xs)))"
    using assms by (intro round_ratio_no_overflow) (simp_all add: mult.commute)
  with assms(1) show ?thesis by (simp add: calculate_average_ints)
qed

subsection \<open>Float inputs\<close>

text \<open>On floats no addition raises: an overflow gives an infinity.\<close>

lemma for_loop_floats:
  "for_loop (PyFloat x) (map PyFloat ys) = Inr (PyFloat (foldl float_add x ys))"
  by (induction ys arbitrary: x) simp_all

lemma for_loop_floats_seed:
  "ys \<noteq> [] \<Longrightarrow> \<exists>t. for_loop (PyInt 0) (map PyFloat ys) = Inr (PyFloat t)"
  by (cases ys) (simp_all add: int_to_double_zero for_loop_floats)

lemma calculate_average_floats:
  assumes "ys \<noteq> []" "int (length ys) < 2 ^ 1023"
  shows "\<exists>v. calculate_average (map PyFloat ys) = Inr (PyFloat v)"
proof -
  obtain t where t: "for_loop (PyInt 0) (map PyFloat ys) = Inr (PyFloat t)"
    using for_loop_floats_seed[OF assms(1)] by blast
  have "\<bar>int (length ys)\<bar> = int (length ys)" by simp
  then have "\<bar>int (length ys)\<bar> < 2 ^ 1023" using assms(2) by (rule ssubst)
  then have c: "int_to_double (int (length ys)) = Inr (round_ratio (int (length ys)) 1)"
    by (rule int_to_double_small)
  have "0 < round_ratio (int (length ys)) 1"
    using assms(1) by (intro round_ratio_int_pos) simp
  then show ?thesis using t c by (simp add: calculate_average_def len_def)
qed

subsection \<open>The loop is the forward pass of the specification\<close>

lemma foldl_error:
  "foldl (\<lambda>acc x. case acc of Inl e \<Rightarrow> Inl e | Inr t \<Rightarrow> py_add t x) (Inl e) S = Inl e"
  by (induction S) simp_all

lemma for_loop_foldl:
  "for_loop tot S
   = foldl (\<lambda>acc x. case acc of Inl e \<Rightarrow> Inl e | Inr t \<Rightarrow> py_add t x) (Inr tot) S"
proof (induction S arbitrary: tot)
  case Nil
  show ?case by simp
next
  case (Cons x S)
  show ?case by (cases "py_add tot x") (simp_all add: Cons.IH foldl_error)
qed

lemma calculate_average_spec: "calculate_average S = average_spec S"
  by (simp add: calculate_average_def average_spec_def sum_spec_def for_loop_foldl)

subsection \<open>Rounding is to the nearest double\<close>

text \<open>\<open>round_half_even\<close> gives an integer nearest to the quotient, so \<open>round_ratio\<close>
  gives a multiple of the unit in the last place nearest to it; this is a double, and no
  double of a smaller exponent is nearer.\<close>

lemma doublesI: "\<bar>m\<bar> < 2 ^ 53 \<Longrightarrow> - 1074 \<le> k \<Longrightarrow> of_int m * pw k \<in> doubles"
  unfolding doubles_def by blast

lemma doubles_uminus: "y \<in> doubles \<Longrightarrow> - y \<in> doubles"
proof -
  assume "y \<in> doubles"
  then obtain m k where y: "y = of_int m * pw k" and m: "\<bar>m\<bar> < 2 ^ 53" and k: "- 1074 \<le> k"
    unfolding doubles_def by blast
  have "- y = of_int (- m) * pw k" by (simp add: y)
  moreover have "\<bar>- m\<bar> < 2 ^ 53" using m by simp
  ultimately show ?thesis using k by (simp only: doublesI)
qed

lemma rhe_nearest_int:
  assumes d: "0 < d"
  shows "\<bar>round_half_even n d * d - n\<bar> \<le> \<bar>z * d - n\<bar>"
proof -
  define q r w where "q = n div d" and "r = n mod d" and "w = z - q"
  have n: "n = q * d + r" by (simp add: q_def r_def)
  have r: "0 \<le> r" "r < d" using d by (simp_all add: r_def)
  have z: "z * d - n = w * d - r" by (simp add: n w_def algebra_simps)
  have wpos: "d \<le> w * d" if "1 \<le> w" using mult_right_mono[of 1 w d] d that by simp
  have wneg: "w * d \<le> - d" if "w \<le> - 1" using mult_right_mono[of w "- 1" d] d that by simp
  have w0: "w * d = 0" if "w = 0" using that by simp
  show ?thesis
  proof (cases "d < 2 * r \<or> (2 * r = d \<and> odd q)")
    case True
    then have "round_half_even n d = q + 1"
      by (simp add: round_half_even_def Let_def q_def r_def)
    then have m: "round_half_even n d * d - n = d - r" by (simp add: n algebra_simps)
    from True have dr: "d \<le> 2 * r" by auto
    consider "w \<le> - 1" | "w = 0" | "1 \<le> w" by linarith
    then have "\<bar>d - r\<bar> \<le> \<bar>w * d - r\<bar>"
    proof cases
      case 1
      from wneg[OF 1] r dr show ?thesis by linarith
    next
      case 2
      with r dr show ?thesis by simp
    next
      case 3
      from wpos[OF 3] r dr show ?thesis by linarith
    qed
    then show ?thesis by (simp only: m z)
  next
    case False
    then have "round_half_even n d = q"
      by (simp add: round_half_even_def Let_def q_def r_def)
    then have m: "round_half_even n d * d - n = - r" by (simp add: n algebra_simps)
    from False have dr: "2 * r \<le> d" by auto
    consider "w \<le> - 1" | "w = 0" | "1 \<le> w" by linarith
    then have "\<bar>- r\<bar> \<le> \<bar>w * d - r\<bar>"
    proof cases
      case 1
      from wneg[OF 1] r dr show ?thesis by linarith
    next
      case 2
      with r dr show ?thesis by simp
    next
      case 3
      from wpos[OF 3] r dr show ?thesis by linarith
    qed
    then show ?thesis by (simp only: m z)
  qed
qed

lemma abs_diff_ratio:
  assumes d: "0 < d"
  shows "\<bar>of_int m - (of_int n :: rat) / of_int d\<bar> = of_int \<bar>m * d - n\<bar> / of_int d"
proof -
  have "of_int m - (of_int n :: rat) / of_int d = of_int (m * d - n) / of_int d"
    using d by (simp add: field_simps)
  then have "\<bar>of_int m - (of_int n :: rat) / of_int d\<bar> = \<bar>of_int (m * d - n) / of_int d\<bar>"
    by (rule arg_cong)
  also have "\<dots> = of_int \<bar>m * d - n\<bar> / of_int d"
    using d by (simp only: abs_divide of_int_abs abs_of_pos of_int_0_less_iff)
  finally show ?thesis .
qed

lemma rhe_nearest:
  assumes d: "0 < d"
  shows "\<bar>of_int (round_half_even n d) - (of_int n :: rat) / of_int d\<bar>
         \<le> \<bar>of_int z - of_int n / of_int d\<bar>"
proof -
  have "(of_int \<bar>round_half_even n d * d - n\<bar> :: rat) \<le> of_int \<bar>z * d - n\<bar>"
    using rhe_nearest_int[OF d, of n z] by (simp only: of_int_le_iff)
  then have "(of_int \<bar>round_half_even n d * d - n\<bar> :: rat) / of_int d \<le> of_int \<bar>z * d - n\<bar> / of_int d"
    using d by (intro divide_right_mono) simp_all
  then show ?thesis by (simp only: abs_diff_ratio[OF d])
qed

lemma abs_scale: "\<bar>a * pw k - x\<bar> = \<bar>a - x / pw k\<bar> * pw k"
proof -
  have "a * pw k - x = (a - x / pw k) * pw k" by (simp add: field_simps)
  then have "\<bar>a * pw k - x\<bar> = \<bar>(a - x / pw k) * pw k\<bar>" by (rule arg_cong)
  also have "\<dots> = \<bar>a - x / pw k\<bar> * pw k" by (simp add: abs_mult)
  finally show ?thesis .
qed

lemma round_ratio_grid:
  assumes p: "0 < p" and d: "0 < d"
  defines "k \<equiv> max (floor_log2 p d - 52) (- 1074)"
  shows "\<exists>m. round_ratio p d = of_int m * pw k
           \<and> (\<forall>z. \<bar>of_int m * pw k - of_int p / of_int d\<bar>
                    \<le> \<bar>of_int z * pw k - of_int p / of_int d\<bar>)"
proof -
  let ?x = "(of_int p :: rat) / of_int d"
  have "\<exists>N D. 0 < D \<and> ?x / pw k = of_int N / of_int D
          \<and> round_ratio p d = of_int (round_half_even N D) * pw k"
  proof (cases "0 \<le> k")
    case True
    let ?d' = "d * 2 ^ nat k"
    have d': "0 < ?d'" using d by simp
    have pk: "pw k = 2 ^ nat k" using True by (simp add: power_int_nonneg_exp)
    have "round_ratio p d = of_int (round_half_even p ?d' * 2 ^ nat k)"
      using p True by (simp add: round_ratio_def Let_def k_def)
    then have rr: "round_ratio p d = of_int (round_half_even p ?d') * pw k"
      by (simp add: pk)
    have "?x / pw k = (of_int p :: rat) / of_int ?d'" by (simp add: pk)
    with d' rr show ?thesis by blast
  next
    case False
    let ?n' = "p * 2 ^ nat (- k)"
    have pk: "pw k = 1 / 2 ^ nat (- k)" using False by (simp add: pw_neg)
    have "round_ratio p d = of_int (round_half_even ?n' d) / of_int (2 ^ nat (- k))"
      using p False by (simp add: round_ratio_def Let_def k_def)
    then have rr: "round_ratio p d = of_int (round_half_even ?n' d) * pw k"
      by (simp add: pk)
    have "?x / pw k = (of_int ?n' :: rat) / of_int d" by (simp add: pk)
    with d rr show ?thesis by blast
  qed
  then obtain N D where D: "0 < D" and x: "?x / pw k = of_int N / of_int D"
    and rr: "round_ratio p d = of_int (round_half_even N D) * pw k" by blast
  show ?thesis
  proof (intro exI[of _ "round_half_even N D"] conjI allI)
    show "round_ratio p d = of_int (round_half_even N D) * pw k" by (rule rr)
    fix z
    have "\<bar>of_int (round_half_even N D) - ?x / pw k\<bar> \<le> \<bar>of_int z - ?x / pw k\<bar>"
      unfolding x by (rule rhe_nearest[OF D])
    then have "\<bar>of_int (round_half_even N D) - ?x / pw k\<bar> * pw k \<le> \<bar>of_int z - ?x / pw k\<bar> * pw k"
      by (intro mult_right_mono) simp_all
    then show "\<bar>of_int (round_half_even N D) * pw k - ?x\<bar> \<le> \<bar>of_int z * pw k - ?x\<bar>"
      by (simp only: abs_scale)
  qed
qed

lemma round_ratio_nearest_pos:
  assumes p: "0 < p" and d: "0 < d" and m': "\<bar>m'\<bar> < 2 ^ 53" and k': "- 1074 \<le> k'"
  shows "\<bar>round_ratio p d - of_int p / of_int d\<bar> \<le> \<bar>of_int m' * pw k' - of_int p / of_int d\<bar>"
proof -
  let ?e = "floor_log2 p d"
  let ?k = "max (?e - 52) (- 1074)"
  let ?x = "(of_int p :: rat) / of_int d"
  let ?r = "round_ratio p d"
  obtain m where rr: "?r = of_int m * pw ?k"
    and near: "\<And>z. \<bar>of_int m * pw ?k - ?x\<bar> \<le> \<bar>of_int z * pw ?k - ?x\<bar>"
    using round_ratio_grid[OF p d] by blast
  show ?thesis
  proof (cases "?k \<le> k'")
    case True
    have "pw k' = pw (k' - ?k) * pw ?k" by (simp add: power_int_add[symmetric])
    also have "pw (k' - ?k) = of_int (2 ^ nat (k' - ?k))"
      using True by (simp add: power_int_nonneg_exp)
    finally have eq: "of_int m' * pw k' = of_int (m' * 2 ^ nat (k' - ?k)) * pw ?k" by simp
    show ?thesis unfolding rr eq by (rule near)
  next
    case False
    then have kk: "k' < ?k" by linarith
    with k' have ke: "?k = ?e - 52" by linarith
    have e: "- 1074 \<le> ?e" using kk k' ke by linarith
    let ?y = "of_int m' * pw k'"
    have "(of_int \<bar>m'\<bar> :: rat) < of_int (2 ^ 53)" using m' by (simp only: of_int_less_iff)
    then have "(of_int \<bar>m'\<bar> :: rat) * pw k' < of_int (2 ^ 53) * pw k'"
      by (intro mult_strict_right_mono) simp_all
    also have "(of_int (2 ^ 53) :: rat) * pw k' = pw 53 * pw k'" by simp
    also have "\<dots> = pw (53 + k')" by (rule power_int_add[symmetric]) simp
    also have "\<dots> \<le> pw ?e" using kk ke by (intro power_int_increasing) simp_all
    finally have "\<bar>?y\<bar> < pw ?e" by (simp add: abs_mult)
    then have y: "?y < pw ?e" by simp
    have lo: "pw ?e \<le> ?x" by (rule floor_log2_bounds(1)[OF p d])
    have rlo: "pw ?e \<le> ?r" by (rule round_ratio_lower[OF p d e])
    have "52 + ?k = ?e" using ke by linarith
    then have "pw ?e = pw (52 + ?k)" by (simp only:)
    also have "\<dots> = pw 52 * pw ?k" by (rule power_int_add) simp
    also have "pw 52 = of_int (2 ^ 52)" by simp
    finally have g: "pw ?e = of_int (2 ^ 52) * pw ?k" .
    have "\<bar>?r - ?x\<bar> \<le> \<bar>pw ?e - ?x\<bar>" using near[of "2 ^ 52"] unfolding g rr .
    then show ?thesis using y lo rlo by linarith
  qed
qed

lemma round_ratio_nearest:
  assumes d: "0 < d" and y: "y \<in> doubles"
  shows "\<bar>round_ratio p d - of_int p / of_int d\<bar> \<le> \<bar>y - of_int p / of_int d\<bar>"
proof -
  obtain m k where yy: "y = of_int m * pw k" and m: "\<bar>m\<bar> < 2 ^ 53" and k: "- 1074 \<le> k"
    using y unfolding doubles_def by blast
  consider "p = 0" | "0 < p" | "p < 0" by linarith
  then show ?thesis
  proof cases
    case 1
    then show ?thesis by (simp add: round_ratio_def)
  next
    case 2
    then show ?thesis unfolding yy using d m k by (intro round_ratio_nearest_pos)
  next
    case 3
    then have p': "0 < - p" by simp
    have m': "\<bar>- m\<bar> < 2 ^ 53" using m by simp
    have "\<bar>round_ratio (- p) d - of_int (- p) / of_int d\<bar>
          \<le> \<bar>of_int (- m) * pw k - of_int (- p) / of_int d\<bar>"
      using p' d m' k by (rule round_ratio_nearest_pos)
    also have "of_int (- m) * pw k - (of_int (- p) :: rat) / of_int d = - (y - of_int p / of_int d)"
      by (simp add: yy)
    also have "round_ratio (- p) d - of_int (- p) / of_int d = - (round_ratio p d - of_int p / of_int d)"
      by (simp add: round_ratio_neg)
    finally show ?thesis by (simp only: abs_minus_cancel)
  qed
qed

lemma round_ratio_in_doubles_pos:
  assumes p: "0 < p" and d: "0 < d"
  shows "round_ratio p d \<in> doubles"
proof -
  let ?e = "floor_log2 p d"
  let ?k = "max (?e - 52) (- 1074)"
  let ?x = "(of_int p :: rat) / of_int d"
  obtain m where rr: "round_ratio p d = of_int m * pw ?k"
    and lo: "\<lfloor>?x / pw ?k\<rfloor> \<le> m" and hi: "m \<le> \<lfloor>?x / pw ?k\<rfloor> + 1"
    using round_ratio_pos[OF p d] by blast
  have "0 \<le> ?x / pw ?k" using p d by simp
  then have "0 \<le> \<lfloor>?x / pw ?k\<rfloor>" by simp
  with lo have m0: "0 \<le> m" by linarith
  have "?x / pw ?k < pw (?e + 1) / pw ?k"
    using floor_log2_bounds(2)[OF p d] by (intro divide_strict_right_mono) simp_all
  also have "\<dots> = pw (?e + 1 - ?k)" by (simp add: power_int_diff)
  also have "\<dots> \<le> pw 53" by (intro power_int_increasing) simp_all
  also have "\<dots> = of_int (2 ^ 53)" by simp
  finally have "\<lfloor>?x / pw ?k\<rfloor> < 2 ^ 53" by (simp only: floor_less_iff)
  with hi have m53: "m \<le> 2 ^ 53" by linarith
  have k: "- 1074 \<le> ?k" by simp
  show ?thesis
  proof (cases "m < 2 ^ 53")
    case True
    with m0 have "\<bar>m\<bar> < 2 ^ 53" by simp
    then show ?thesis unfolding rr using k by (rule doublesI)
  next
    case False
    with m53 have m: "m = 2 ^ 53" by linarith
    have "pw 1 * pw ?k = pw (1 + ?k)" by (rule power_int_add[symmetric]) simp
    then have "2 * pw ?k = pw (?k + 1)" by (simp add: add.commute)
    then have "round_ratio p d = of_int (2 ^ 52) * pw (?k + 1)"
      by (simp add: rr m)
    moreover have "of_int (2 ^ 52) * pw (?k + 1) \<in> doubles"
      by (rule doublesI) simp_all
    ultimately show ?thesis by simp
  qed
qed

lemma zero_in_doubles: "0 \<in> doubles"
  using doublesI[of 0 0] by simp

lemma round_ratio_in_doubles:
  assumes d: "0 < d"
  shows "round_ratio p d \<in> doubles"
proof -
  consider "p = 0" | "0 < p" | "p < 0" by linarith
  then show ?thesis
  proof cases
    case 1
    then show ?thesis by (simp add: round_ratio_def zero_in_doubles)
  next
    case 2
    then show ?thesis using d by (rule round_ratio_in_doubles_pos)
  next
    case 3
    then have "round_ratio (- p) d \<in> doubles" using d by (intro round_ratio_in_doubles_pos) simp
    then have "- round_ratio (- p) d \<in> doubles" by (rule doubles_uminus)
    then show ?thesis by (simp add: round_ratio_neg)
  qed
qed

lemma round_ratio_nearest_double_to:
  "0 < d \<Longrightarrow> nearest_double_to (of_int p / of_int d) (round_ratio p d)"
  unfolding nearest_double_to_def
  by (intro conjI ballI round_ratio_in_doubles round_ratio_nearest)

subsection \<open>The float range\<close>

text \<open>The rounded quotient leaves the float range exactly when the quotient reaches
  \<open>2\<^sup>1\<^sup>0\<^sup>2\<^sup>4 - 2\<^sup>9\<^sup>7\<^sup>0\<close> in magnitude, halfway between the largest double and \<open>2\<^sup>1\<^sup>0\<^sup>2\<^sup>4\<close>.\<close>

lemma rhe_ge:
  assumes D: "0 < D" and Q: "even Q" and h: "(2 * Q - 1) * D \<le> 2 * n"
  shows "Q \<le> round_half_even n D"
proof -
  define q r where "q = n div D" and "r = n mod D"
  have n: "n = q * D + r" by (simp add: q_def r_def)
  have r: "0 \<le> r" "r < D" using D by (simp_all add: r_def)
  have h': "2 * (Q * D) - D \<le> 2 * (q * D) + 2 * r"
    using h unfolding n by (simp add: algebra_simps)
  have q1: "Q - 1 \<le> q"
  proof (rule ccontr)
    assume "\<not> Q - 1 \<le> q"
    then have "q + 1 \<le> Q - 1" by linarith
    then have "(q + 1) * D \<le> (Q - 1) * D" using D by (intro mult_right_mono) simp_all
    then have "q * D + D \<le> Q * D - D" by (simp add: algebra_simps)
    with h' r D show False by linarith
  qed
  show ?thesis
  proof (cases "Q \<le> q")
    case True
    with rhe_bounds(1)[OF D, of n] show ?thesis by (simp add: q_def)
  next
    case False
    with q1 have q: "q = Q - 1" by linarith
    have "q * D = Q * D - D" unfolding q by (simp add: left_diff_distrib)
    with h' have "D \<le> 2 * r" by linarith
    moreover have "odd q" using Q q by simp
    ultimately have "D < 2 * r \<or> (2 * r = D \<and> odd q)" by linarith
    then have "round_half_even n D = q + 1"
      by (simp add: round_half_even_def Let_def q_def r_def)
    with q show ?thesis by simp
  qed
qed

lemma max_double: "of_int (2 ^ 53 - 1) * pw 971 \<in> doubles"
  by (rule doublesI) simp_all

lemma max_double_value: "of_int (2 ^ 53 - 1) * pw 971 = (2 ^ 1024 - 2 * 2 ^ 970 :: rat)"
proof -
  have "pw 53 * pw 971 = pw (53 + 971)" by (rule power_int_add[symmetric]) simp
  then have a: "pw 53 * pw 971 = 2 ^ 1024" by simp
  have "pw 1 * pw 970 = pw (1 + 970)" by (rule power_int_add[symmetric]) simp
  then have b: "pw 971 = 2 * 2 ^ 970" by simp
  have "of_int (2 ^ 53 - 1) * pw 971 = pw 53 * pw 971 - pw 971" by (simp add: algebra_simps)
  then have "of_int (2 ^ 53 - 1) * pw 971 = 2 ^ 1024 - pw 971" by (simp only: a)
  then show ?thesis by (simp only: b)
qed

lemma round_ratio_in_range:
  assumes d: "0 < d" and b: "\<bar>of_int p / of_int d\<bar> < (2 ^ 1024 - 2 ^ 970 :: rat)"
  shows "\<not> overflows (round_ratio p d)"
proof
  define M h :: rat where "M = 2 ^ 1024" and "h = 2 ^ 970"
  define q r y where "q = (of_int p :: rat) / of_int d" and "r = round_ratio p d"
    and "y = (of_int (2 ^ 53 - 1) :: rat) * pw 971"
  assume "overflows (round_ratio p d)"
  then have ov: "M \<le> \<bar>r\<bar>" by (simp add: overflows_def M_def r_def)
  have h: "0 < h" by (simp add: h_def)
  have y: "y = M - 2 * h" unfolding y_def M_def h_def by (rule max_double_value)
  have q: "\<bar>q\<bar> < M - h" using b by (simp add: q_def M_def h_def)
  have n1: "\<bar>r - q\<bar> \<le> \<bar>y - q\<bar>"
    unfolding r_def q_def y_def by (rule round_ratio_nearest[OF d max_double])
  have n2: "\<bar>r - q\<bar> \<le> \<bar>- y - q\<bar>"
    unfolding r_def q_def y_def by (rule round_ratio_nearest[OF d doubles_uminus[OF max_double]])
  from ov h y q n1 n2 show False by linarith
qed

lemma round_ratio_out_of_range_pos:
  assumes p: "0 < p" and d: "0 < d" and b: "d * (2 ^ 1024 - 2 ^ 970) \<le> p"
  shows "overflows (round_ratio p d)"
proof (cases "d * 2 ^ 1024 \<le> p")
  case True
  with p d show ?thesis by (rule round_ratio_overflow_pos)
next
  case False
  let ?x = "(of_int p :: rat) / of_int d"
  have "d * 2 ^ 1023 \<le> d * (2 ^ 1024 - 2 ^ 970)" using d by (intro mult_left_mono) simp_all
  with b have "d * 2 ^ 1023 \<le> p" by linarith
  then have "(of_int (d * 2 ^ 1023) :: rat) \<le> of_int p" by (simp only: of_int_le_iff)
  then have lo: "pw 1023 \<le> ?x" using d by (simp add: pos_le_divide_eq mult.commute)
  from False have "p < d * 2 ^ 1024" by simp
  then have "(of_int p :: rat) < of_int (d * 2 ^ 1024)" by (simp only: of_int_less_iff)
  then have "?x < pw 1024" using d by (simp add: pos_divide_less_eq mult.commute)
  then have hi: "?x < pw (1023 + 1)" by simp
  have fl: "floor_log2 p d = 1023" using p d lo hi by (rule floor_log2_unique)
  let ?D = "d * 2 ^ 971"
  have rr: "round_ratio p d = of_int (round_half_even p ?D * 2 ^ 971)"
    using p by (simp add: round_ratio_def Let_def fl)
  have D: "0 < ?D" using d by simp
  have "(2 * 2 ^ 53 - 1) * ?D = 2 * (d * (2 ^ 1024 - 2 ^ 970))" by simp
  also have "\<dots> \<le> 2 * p" using b by simp
  finally have "2 ^ 53 \<le> round_half_even p ?D" by (intro rhe_ge[OF D]) simp_all
  then have "2 ^ 53 * 2 ^ 971 \<le> round_half_even p ?D * 2 ^ 971"
    by (intro mult_right_mono) simp_all
  then have "(of_int (2 ^ 53 * 2 ^ 971) :: rat) \<le> of_int (round_half_even p ?D * 2 ^ 971)"
    by (simp only: of_int_le_iff)
  then have "(2 ^ 1024 :: rat) \<le> round_ratio p d" unfolding rr by simp
  then show ?thesis by (simp add: overflows_def)
qed

lemma round_ratio_overflows_iff:
  assumes d: "0 < d"
  shows "overflows (round_ratio p d) \<longleftrightarrow> 2 ^ 1024 - 2 ^ 970 \<le> \<bar>(of_int p :: rat) / of_int d\<bar>"
proof
  assume "overflows (round_ratio p d)"
  then show "2 ^ 1024 - 2 ^ 970 \<le> \<bar>(of_int p :: rat) / of_int d\<bar>"
    using round_ratio_in_range[OF d, of p] by (simp only: not_less[symmetric]) blast
next
  assume b: "2 ^ 1024 - 2 ^ 970 \<le> \<bar>(of_int p :: rat) / of_int d\<bar>"
  have "\<bar>(of_int p :: rat) / of_int d\<bar> = of_int \<bar>p\<bar> / of_int d" using d by simp
  with b have "(2 ^ 1024 - 2 ^ 970) * (of_int d :: rat) \<le> of_int \<bar>p\<bar>"
    using d by (simp add: pos_le_divide_eq)
  then have "(of_int (d * (2 ^ 1024 - 2 ^ 970)) :: rat) \<le> of_int \<bar>p\<bar>"
    by (simp add: mult.commute)
  then have b': "d * (2 ^ 1024 - 2 ^ 970) \<le> \<bar>p\<bar>" by (simp only: of_int_le_iff)
  have "0 < d * (2 ^ 1024 - 2 ^ 970)" using d by simp
  with b' have p0: "0 < \<bar>p\<bar>" by linarith
  have ov: "overflows (round_ratio \<bar>p\<bar> d)" using p0 d b' by (rule round_ratio_out_of_range_pos)
  show "overflows (round_ratio p d)"
  proof (cases "0 \<le> p")
    case True
    then show ?thesis using ov by simp
  next
    case False
    then have "\<bar>p\<bar> = - p" by simp
    with ov have "overflows (- round_ratio p d)" by (simp only: round_ratio_neg)
    then show ?thesis by (simp only: overflows_def abs_minus_cancel)
  qed
qed

subsection \<open>The division by a positive count\<close>


lemma nearest_double_nearest: "nearest_double_to x (nearest_double x)"
proof -
  obtain p d where pd: "quotient_of x = (p, d)" by (cases "quotient_of x")
  have d: "0 < d" using pd by (rule quotient_of_denom_pos)
  have x: "x = of_int p / of_int d" using pd by (rule quotient_of_div)
  have "nearest_double x = round_ratio p d" by (simp add: nearest_double_def pd)
  then show ?thesis unfolding x[symmetric] using round_ratio_nearest_double_to[OF d, of p]
    by (simp add: x)
qed



lemma py_truediv_int:
  assumes n: "0 < n"
  shows "py_truediv (PyInt a) n
         = (if 2 ^ 1024 - 2 ^ 970 \<le> \<bar>(of_int a :: rat) / of_int (int n)\<bar> then Inl OverflowError
            else Inr (PyFloat (Finite (round_ratio a (int n)))))"
proof -
  have d: "0 < int n" using n by simp
  show ?thesis
    using n by (simp only: py_truediv.simps Let_def round_ratio_overflows_iff[OF d]) simp
qed




lemma sum_spec_ints: "sum_spec (map PyInt xs) = Inr (PyInt (sum_list xs))"
  using for_loop_ints[of 0 xs] by (simp add: sum_spec_def for_loop_foldl)

subsection \<open>The mean of a non-empty input\<close>

text \<open>On floats the result need not be the mean of the elements, not even nearly: the
  elements of \<open>[2\<^sup>5\<^sup>3, 1.0, -2\<^sup>5\<^sup>3]\<close> have the mean \<open>1/3\<close>, whose nearest double is
  \<open>0.3333333333333333\<close>, and the result is \<open>0.0\<close>, because the running sum \<open>2\<^sup>5\<^sup>3 + 1\<close>
  is rounded to \<open>2\<^sup>5\<^sup>3\<close>.\<close>

theorem float_average_is_not_the_mean:
  "calculate_average [PyFloat (Finite 9007199254740992), PyFloat (Finite 1),
                      PyFloat (Finite (- 9007199254740992))]
     = Inr (PyFloat (Finite 0))
   \<and> sum_list [9007199254740992, 1, - 9007199254740992 :: rat]
       / of_nat (length [9007199254740992, 1, - 9007199254740992 :: rat]) = 1 / 3
   \<and> nearest_double_to (1 / 3) (6004799503160661 / 18014398509481984)
   \<and> \<not> nearest_double_to (1 / 3) 0"
proof (intro conjI)
  show "calculate_average [PyFloat (Finite 9007199254740992), PyFloat (Finite 1),
                      PyFloat (Finite (- 9007199254740992))] = Inr (PyFloat (Finite 0))"
    by (simp add: calculate_average_def len_def int_to_double_def round_double_def
      nearest_double_cases overflows_def round_ratio_3_1 round_ratio_0)
  show "sum_list [9007199254740992, 1, - 9007199254740992 :: rat]
       / of_nat (length [9007199254740992, 1, - 9007199254740992 :: rat]) = 1 / 3"
    by simp
  have "nearest_double_to (1 / 3) (nearest_double (1 / 3))" by (rule nearest_double_nearest)
  then show n: "nearest_double_to (1 / 3) (6004799503160661 / 18014398509481984)"
    by (simp only: nearest_double_cases)
  show "\<not> nearest_double_to (1 / 3) 0"
  proof
    assume "nearest_double_to (1 / 3) 0"
    moreover have "6004799503160661 / 18014398509481984 \<in> doubles"
      using n by (simp only: nearest_double_to_def)
    ultimately have "\<bar>0 - 1 / 3 :: rat\<bar> \<le> \<bar>6004799503160661 / 18014398509481984 - 1 / 3\<bar>"
      unfolding nearest_double_to_def by blast
    then show False by simp
  qed
qed

text \<open>
  Claim C1, for integers. For every non-empty sequence \<open>S\<close> of numbers the result is the
  sum accumulated from zero over one forward pass, divided by the number of elements
  (\<open>average_spec\<close>). When the elements are the integers \<open>xs\<close>, the accumulated sum is
  their exact sum, and the result is the exact mean \<open>sum_list xs / length xs\<close> rounded
  once: the function raises \<^verbatim>\<open>OverflowError\<close> when the mean reaches
  \<open>2\<^sup>1\<^sup>0\<^sup>2\<^sup>4 - 2\<^sup>9\<^sup>7\<^sup>0\<close> in magnitude, and otherwise returns a float in the float range that
  is a double nearest to the mean, no other double being nearer.
\<close>

theorem int_average_is_nearest_double_to_mean:
  assumes "S \<noteq> []"
  shows "calculate_average S = average_spec S
       \<and> (\<forall>xs. S = map PyInt xs \<longrightarrow>
             sum_spec S = Inr (PyInt (sum_list xs))
             \<and> (2 ^ 1024 - 2 ^ 970 \<le> \<bar>exact_mean xs\<bar>
                  \<longrightarrow> calculate_average S = Inl OverflowError)
             \<and> (\<bar>exact_mean xs\<bar> < 2 ^ 1024 - 2 ^ 970
                  \<longrightarrow> calculate_average S
                        = Inr (PyFloat (Finite (round_ratio (sum_list xs) (int (length xs)))))
                      \<and> nearest_double_to (exact_mean xs)
                          (round_ratio (sum_list xs) (int (length xs)))
                      \<and> \<bar>round_ratio (sum_list xs) (int (length xs))\<bar> < 2 ^ 1024))"
proof (intro conjI allI impI)
  show "calculate_average S = average_spec S" by (rule calculate_average_spec)
next
  fix xs assume S: "S = map PyInt xs"
  then have n: "0 < length xs" using assms by simp
  then have d: "0 < int (length xs)" by simp
  have ca: "calculate_average S = py_truediv (PyInt (sum_list xs)) (length xs)"
    unfolding S by (rule calculate_average_ints)
  show "sum_spec S = Inr (PyInt (sum_list xs))" unfolding S by (rule sum_spec_ints)
  show "calculate_average S = Inl OverflowError"
    if "2 ^ 1024 - 2 ^ 970 \<le> \<bar>exact_mean xs\<bar>"
    using that unfolding ca exact_mean_def by (simp only: py_truediv_int[OF n] if_True)
  show "calculate_average S = Inr (PyFloat (Finite (round_ratio (sum_list xs) (int (length xs)))))"
    if "\<bar>exact_mean xs\<bar> < 2 ^ 1024 - 2 ^ 970"
    using that unfolding ca exact_mean_def
    by (simp only: py_truediv_int[OF n] not_le[symmetric] if_False)
  show "nearest_double_to (exact_mean xs) (round_ratio (sum_list xs) (int (length xs)))"
    unfolding exact_mean_def by (rule round_ratio_nearest_double_to[OF d])
  show "\<bar>round_ratio (sum_list xs) (int (length xs))\<bar> < 2 ^ 1024"
    if "\<bar>exact_mean xs\<bar> < 2 ^ 1024 - 2 ^ 970"
    using round_ratio_in_range[OF d, of "sum_list xs"] that
    unfolding exact_mean_def overflows_def by (simp only: not_le) 
qed

theorem int_average_is_nearest_double_to_mean_witness:
  "[PyInt 1, PyInt 2] \<noteq> []
   \<and> [PyInt 1, PyInt 2] = map PyInt [1, 2]
   \<and> exact_mean [1, 2] = 3 / 2
   \<and> \<bar>exact_mean [1, 2]\<bar> < 2 ^ 1024 - 2 ^ 970
   \<and> calculate_average [PyInt 1, PyInt 2] = Inr (PyFloat (Finite (3 / 2)))
   \<and> nearest_double_to (exact_mean [1, 2]) (3 / 2)"
proof -
  have ne: "[PyInt 1, PyInt 2] \<noteq> []" by simp
  have m: "[PyInt 1, PyInt 2] = map PyInt [1, 2]" by simp
  have e: "exact_mean [1, 2] = 3 / 2" by (simp add: exact_mean_def)
  have b: "\<bar>exact_mean [1, 2]\<bar> < 2 ^ 1024 - 2 ^ 970" by (simp add: e)
  have r: "round_ratio (sum_list [1, 2]) (int (length [1, 2 :: int])) = 3 / 2"
    by (simp add: round_ratio_3_2)
  note t = int_average_is_nearest_double_to_mean[OF ne, THEN conjunct2, THEN spec, of "[1, 2]",
      THEN mp, OF m, THEN conjunct2, THEN conjunct2, THEN mp, OF b]
  from t have "calculate_average [PyInt 1, PyInt 2] = Inr (PyFloat (Finite (3 / 2)))"
    and "nearest_double_to (exact_mean [1, 2]) (3 / 2)"
    unfolding r by (simp_all only: simp_thms)
  with ne m e b show ?thesis by (intro conjI)
qed



subsection \<open>Integer inputs return floats, within the float range\<close>

text \<open>The mean of two copies of \<open>2\<^sup>1\<^sup>0\<^sup>2\<^sup>4\<close> is \<open>2\<^sup>1\<^sup>0\<^sup>2\<^sup>4\<close>, which no double holds: the division
  raises \<^verbatim>\<open>OverflowError\<close> and no float is returned.\<close>

theorem huge_int_pair_raises_overflow:
  "calculate_average [PyInt (2 ^ 1024), PyInt (2 ^ 1024)] = Inl OverflowError"
proof -
  have "overflows (round_ratio (2 ^ 1024 + 2 ^ 1024) 2)"
    by (rule round_ratio_overflow_pos) simp_all
  then show ?thesis by (simp add: calculate_average_def len_def)
qed

text \<open>
  Claim C9, within the float range. For every non-empty sequence of integers,
  \<open>calculate_average\<close> never returns an integer: it returns a finite float or raises
  \<^verbatim>\<open>OverflowError\<close>. When the sum is below \<open>2\<^sup>1\<^sup>0\<^sup>2\<^sup>3\<close> times the count in magnitude it
  returns the float nearest to the exact mean. On \<open>[2, 4, 6]\<close>, whose count divides the
  sum, the result is the float \<open>4.0\<close>, not the integer \<open>4\<close>.
\<close>

theorem int_average_is_float:
  assumes "xs \<noteq> []"
  shows "(\<forall>i. calculate_average (map PyInt xs) \<noteq> Inr (PyInt i))
         \<and> (calculate_average (map PyInt xs) = Inl OverflowError
             \<or> (\<exists>r. calculate_average (map PyInt xs) = Inr (PyFloat (Finite r))))
         \<and> (\<bar>sum_list xs\<bar> < 2 ^ 1023 * int (length xs) \<longrightarrow>
               calculate_average (map PyInt xs)
               = Inr (PyFloat (Finite (round_ratio (sum_list xs) (int (length xs))))))
         \<and> calculate_average (map PyInt [2, 4, 6]) = Inr (PyFloat (Finite 4))"
proof (intro conjI allI impI)
  show "calculate_average (map PyInt xs) = Inl OverflowError
        \<or> (\<exists>r. calculate_average (map PyInt xs) = Inr (PyFloat (Finite r)))"
    using assms by (simp add: calculate_average_ints Let_def)
  then show "calculate_average (map PyInt xs) \<noteq> Inr (PyInt i)" for i by auto
  show "calculate_average (map PyInt [2, 4, 6]) = Inr (PyFloat (Finite 4))"
    by (simp add: calculate_average_def len_def round_ratio_12_3 overflows_def)
next
  assume "\<bar>sum_list xs\<bar> < 2 ^ 1023 * int (length xs)"
  with assms show "calculate_average (map PyInt xs)
               = Inr (PyFloat (Finite (round_ratio (sum_list xs) (int (length xs)))))"
    by (rule calculate_average_ints_small)
qed

theorem int_average_is_float_witness:
  "[2, 4, 6 :: int] \<noteq> []
   \<and> \<bar>sum_list [2, 4, 6 :: int]\<bar> < 2 ^ 1023 * int (length [2, 4, 6 :: int])
   \<and> calculate_average (map PyInt [2, 4, 6]) = Inr (PyFloat (Finite 4))
   \<and> calculate_average (map PyInt [2, 4, 6]) \<noteq> Inr (PyInt 4)"
  using int_average_is_float[of "[2, 4, 6]"] by (simp add: round_ratio_12_3)

subsection \<open>No division by zero on a non-empty input\<close>

text \<open>A single integer of \<open>2\<^sup>1\<^sup>0\<^sup>2\<^sup>4\<close> is a non-empty input on which no value is returned:
  the division by the count \<open>1\<close> raises \<^verbatim>\<open>OverflowError\<close>.\<close>

theorem huge_int_raises_overflow:
  "calculate_average [PyInt (2 ^ 1024)] = Inl OverflowError"
proof -
  have "overflows (round_ratio (2 ^ 1024) 1)"
    by (rule round_ratio_overflow_pos) simp_all
  then show ?thesis by (simp add: calculate_average_def len_def)
qed

text \<open>
  Claim C5, with the overflow left open. On a non-empty sequence the divisor \<open>len S\<close>
  is not zero and \<open>calculate_average\<close> does not raise \<^verbatim>\<open>ZeroDivisionError\<close>: it returns
  a value or raises \<^verbatim>\<open>OverflowError\<close>. It returns a value on integers whose sum is
  below \<open>2\<^sup>1\<^sup>0\<^sup>2\<^sup>3\<close> times the count in magnitude, and on floats when the count is below
  \<open>2\<^sup>1\<^sup>0\<^sup>2\<^sup>3\<close>.
\<close>

theorem nonempty_never_divides_by_zero:
  assumes "S \<noteq> []"
  shows "len S \<noteq> 0
         \<and> calculate_average S \<noteq> Inl ZeroDivisionError
         \<and> (calculate_average S = Inl OverflowError \<or> (\<exists>v. calculate_average S = Inr v))
         \<and> (\<forall>xs. S = map PyInt xs \<and> \<bar>sum_list xs\<bar> < 2 ^ 1023 * int (length xs) \<longrightarrow>
               (\<exists>v. calculate_average S = Inr v))
         \<and> (\<forall>ys. S = map PyFloat ys \<and> int (length ys) < 2 ^ 1023 \<longrightarrow>
               (\<exists>v. calculate_average S = Inr v))"
proof (intro conjI allI impI)
  show "len S \<noteq> 0" using assms by (simp add: len_def)
  show "calculate_average S \<noteq> Inl ZeroDivisionError"
    using calculate_average_error[OF assms] by blast
  show "calculate_average S = Inl OverflowError \<or> (\<exists>v. calculate_average S = Inr v)"
    using calculate_average_error[OF assms] by (cases "calculate_average S") auto
next
  fix xs assume "S = map PyInt xs \<and> \<bar>sum_list xs\<bar> < 2 ^ 1023 * int (length xs)"
  with assms calculate_average_ints_small[of xs] show "\<exists>v. calculate_average S = Inr v"
    by auto
next
  fix ys assume "S = map PyFloat ys \<and> int (length ys) < 2 ^ 1023"
  with assms calculate_average_floats[of ys] show "\<exists>v. calculate_average S = Inr v"
    by auto
qed

theorem nonempty_never_divides_by_zero_witness:
  "[PyInt 1, PyInt 2] \<noteq> []
   \<and> len [PyInt 1, PyInt 2] \<noteq> 0
   \<and> calculate_average [PyInt 1, PyInt 2] \<noteq> Inl ZeroDivisionError"
  using nonempty_never_divides_by_zero[of "[PyInt 1, PyInt 2]"] by simp

subsection \<open>The order of the elements\<close>

text \<open>On floats the order of the elements can change the result beyond any rounding
  tolerance: \<open>[2\<^sup>5\<^sup>3, 1.0, -2\<^sup>5\<^sup>3]\<close> averages to \<open>0.0\<close>, because \<open>2\<^sup>5\<^sup>3 + 1\<close> rounds to
  \<open>2\<^sup>5\<^sup>3\<close>, while its permutation \<open>[2\<^sup>5\<^sup>3, -2\<^sup>5\<^sup>3, 1.0]\<close> averages to the double nearest
  to \<open>1/3\<close>.\<close>

theorem order_changes_float_average:
  "mset [PyFloat (Finite 9007199254740992), PyFloat (Finite (- 9007199254740992)), PyFloat (Finite 1)]
     = mset [PyFloat (Finite 9007199254740992), PyFloat (Finite 1), PyFloat (Finite (- 9007199254740992))]
   \<and> calculate_average [PyFloat (Finite 9007199254740992), PyFloat (Finite 1),
                         PyFloat (Finite (- 9007199254740992))]
       = Inr (PyFloat (Finite 0))
   \<and> calculate_average [PyFloat (Finite 9007199254740992), PyFloat (Finite (- 9007199254740992)),
                         PyFloat (Finite 1)]
       = Inr (PyFloat (Finite (6004799503160661 / 18014398509481984)))
   \<and> calculate_average [PyFloat (Finite 9007199254740992), PyFloat (Finite (- 9007199254740992)),
                         PyFloat (Finite 1)]
       \<noteq> calculate_average [PyFloat (Finite 9007199254740992), PyFloat (Finite 1),
                           PyFloat (Finite (- 9007199254740992))]"
  by (simp add: calculate_average_def len_def int_to_double_def round_double_def
      nearest_double_cases overflows_def round_ratio_3_1 round_ratio_0)

text \<open>
  Claim C4, for integers. For every sequence \<open>S\<close> of integers and every permutation
  \<open>P\<close> of \<open>S\<close> (a list with the same elements, each as many times),
  \<open>calculate_average\<close> gives the same outcome on \<open>P\<close> as on \<open>S\<close>.
\<close>

theorem int_average_order_independent:
  assumes "mset P = mset S"
  shows "calculate_average (map PyInt P) = calculate_average (map PyInt S)"
proof -
  have "sum_list P = sum_list S"
    using assms by (metis sum_mset_sum_list)
  moreover have "length P = length S"
    using assms by (rule mset_eq_length)
  ultimately show ?thesis by (simp add: calculate_average_ints)
qed

theorem int_average_order_independent_witness:
  "mset [3, 1, 2 :: int] = mset [1, 2, 3]
   \<and> calculate_average (map PyInt [3, 1, 2]) = calculate_average (map PyInt [1, 2, 3])"
  using int_average_order_independent[of "[3, 1, 2]" "[1, 2, 3]"] by simp

subsection \<open>The line printed on success\<close>

text \<open>
  Claim C7. When the call of \<open>calculate_average\<close> in \<^verbatim>\<open>main\<close> returns a value, the
  \<^verbatim>\<open>print\<close> that follows writes exactly one line to standard output, and this line is
  \<^verbatim>\<open>Average: \<close> followed by the default rendering of the value. The property is about
  the body of \<^verbatim>\<open>main\<close> for any \<^verbatim>\<open>data\<close>, since the call succeeds on no run with
  the empty list the script binds.
\<close>

theorem success_prints_one_line:
  assumes "calculate_average data = Inr result"
  shows "main_with str data out = (Inr (), out @ [''Average: '' @ str result])
         \<and> length (snd (main_with str data out)) = length out + 1
         \<and> snd (main_with str data []) = [''Average: '' @ str result]"
  using assms by (simp add: main_with_def)

theorem success_prints_one_line_witness:
  "calculate_average [PyInt 1, PyInt 2] = Inr (PyFloat (Finite (3 / 2)))
   \<and> snd (main_with (\<lambda>v. ''1.5'') [PyInt 1, PyInt 2] []) = [''Average: 1.5'']"
  using success_prints_one_line[of "[PyInt 1, PyInt 2]" "PyFloat (Finite (3 / 2))" "\<lambda>v. ''1.5''" "[]"]
  by (simp add: calculate_average_def len_def round_ratio_3_2 overflows_def)

end
